theory Spec2Isabelle
  imports Main "HOL-Library.Word"
begin

unbundle bit_operations_syntax

chapter \<open>The model\<close>

section \<open>Machine types\<close>

text \<open>
  The package works on Go's fixed-width unsigned integers. \<open>+\<close>, \<open>-\<close> and \<open>*\<close> on
  words wrap around modulo the width, as Go's do; \<open>div\<close>, \<open>mod\<close> and the order on
  words are the unsigned ones.
\<close>

type_synonym byte = "8 word"
type_synonym uint32 = "32 word"
type_synonym uint64 = "64 word"

text \<open>
  Go's run-time panics, as values: an index at or beyond a slice's length, a slice
  expression beyond the capacity, an integer division by zero, and an explicit
  \<open>panic(msg)\<close>.
\<close>

datatype panic = IndexOutOfRange | SliceBoundsOutOfRange | DivideByZero | PanicMsg string

text \<open>
  Go's \<open>int\<close> is 32 bits wide on 32-bit targets and 64 bits wide on 64-bit ones;
  \<open>int(x)\<close> of a \<open>uint64\<close> keeps the low bits and reads them as two's complement.
\<close>

datatype arch = Int32 | Int64

definition toInt :: "arch \<Rightarrow> uint64 \<Rightarrow> int" where
  "toInt a x = (case a of Int32 \<Rightarrow> sint (ucast x :: 32 word) | Int64 \<Rightarrow> sint x)"

definition intBits :: "arch \<Rightarrow> nat" where
  "intBits a = (case a of Int32 \<Rightarrow> 32 | Int64 \<Rightarrow> 64)"

definition FNV_PRIME :: uint32 where
  "FNV_PRIME = 0x01000193"

definition FNV_OFFSET_BASIS :: uint32 where
  "FNV_OFFSET_BASIS = 0x811c9dc5"

section \<open>Array utils\<close>

text \<open>
  The byte order of the host, and the four bytes of a 32-bit word in memory, lowest
  address first. \<open>encoding/binary\<close> is Go's standard library; \<open>PutUint32\<close> and \<open>Uint32\<close>
  are modelled from it: both first check that the slice holds four bytes
  (\<^verbatim>\<open>_ = b[3]\<close>), then \<open>PutUint32\<close> stores \<open>byte(v)\<close>, \<open>byte(v >> 8)\<close>, \<open>byte(v >> 16)\<close>,
  \<open>byte(v >> 24)\<close> into \<open>b[0..3]\<close> for the little-endian order and into \<open>b[3..0]\<close> for
  the big-endian one, and \<open>Uint32\<close> combines them back.
\<close>

datatype byteOrder = LittleEndian | BigEndian

definition word_bytes :: "byteOrder \<Rightarrow> uint32 \<Rightarrow> byte list" where
  "word_bytes order v =
     (case order of
        LittleEndian \<Rightarrow> [ucast v, ucast (drop_bit 8 v), ucast (drop_bit 16 v), ucast (drop_bit 24 v)]
      | BigEndian \<Rightarrow> [ucast (drop_bit 24 v), ucast (drop_bit 16 v), ucast (drop_bit 8 v), ucast v])"

definition PutUint32 :: "byteOrder \<Rightarrow> byte list \<Rightarrow> uint32 \<Rightarrow> panic + byte list" where
  "PutUint32 order b v =
     (if length b < 4 then Inl IndexOutOfRange else Inr (word_bytes order v @ drop 4 b))"

definition Uint32 :: "byteOrder \<Rightarrow> byte list \<Rightarrow> panic + uint32" where
  "Uint32 order b =
     (if length b < 4 then Inl IndexOutOfRange
      else Inr (case order of
        LittleEndian \<Rightarrow>
          ucast (b ! 0) OR push_bit 8 (ucast (b ! 1)) OR push_bit 16 (ucast (b ! 2))
            OR push_bit 24 (ucast (b ! 3))
      | BigEndian \<Rightarrow>
          ucast (b ! 3) OR push_bit 8 (ucast (b ! 2)) OR push_bit 16 (ucast (b ! 1))
            OR push_bit 24 (ucast (b ! 0))))"

text \<open>
  \<open>isLittleEndian()\<close> sets \<^verbatim>\<open>n := uint32(0x01020304)\<close> and returns whether the byte at
  the address of \<open>n\<close>, read through an unsafe pointer, is \<open>0x04\<close>. That byte is the one
  at the lowest address of \<open>n\<close> and depends on the host; the host's byte order is a
  parameter.
\<close>

definition isLittleEndian :: "byteOrder \<Rightarrow> bool" where
  "isLittleEndian host = (hd (word_bytes host 0x01020304) = 0x04)"

text \<open>
  \<^verbatim>\<open>func uint32Array2ByteArray(c []uint32) []byte {
      buf := make([]byte, len(c)*4)
      if isLittleEndian() {
          for i, v := range c { binary.LittleEndian.PutUint32(buf[i*4:], v) }
      } else {
          for i, v := range c { binary.BigEndian.PutUint32(buf[i*4:], v) }
      }
      return buf
  }\<close>
  \<open>c\<close> is only read and \<open>buf\<close> is fresh, so both are lists. \<open>putAll order i vs buf\<close> is
  the \<open>range\<close> loop from index \<open>i\<close> on, \<open>vs\<close> the elements still to come. \<open>buf[i*4:]\<close>
  panics when \<open>i * 4\<close> exceeds \<open>len(buf)\<close>; it is a view of the tail of \<open>buf\<close>, so what
  \<open>PutUint32\<close> stores lands in \<open>buf\<close>. \<open>len(c) * 4\<close> is taken not to overflow \<open>int\<close>: a
  word slice that long does not fit the address space.
\<close>

fun putAll :: "byteOrder \<Rightarrow> nat \<Rightarrow> uint32 list \<Rightarrow> byte list \<Rightarrow> panic + byte list" where
  "putAll order i [] buf = Inr buf"
| "putAll order i (v # vs) buf =
     (if i * 4 > length buf then Inl SliceBoundsOutOfRange
      else case PutUint32 order (drop (i * 4) buf) v of
             Inl e \<Rightarrow> Inl e
           | Inr b \<Rightarrow> putAll order (i + 1) vs (take (i * 4) buf @ b))"

definition uint32Array2ByteArray :: "byteOrder \<Rightarrow> uint32 list \<Rightarrow> panic + byte list" where
  "uint32Array2ByteArray host c =
     (let buf = replicate (length c * 4) 0 in
      if isLittleEndian host then putAll LittleEndian 0 c buf
      else putAll BigEndian 0 c buf)"

text \<open>
  Modelled from the spec: the deserialiser of the round trip, which the package does not
  have. It reads a byte buffer back as 32-bit words in a given byte order with
  \<open>Uint32\<close>, four bytes at a time; a trailing partial word is an error.
\<close>

fun wordsFromBytes :: "byteOrder \<Rightarrow> byte list \<Rightarrow> panic + uint32 list" where
  "wordsFromBytes order [] = Inr []"
| "wordsFromBytes order (b0 # b1 # b2 # b3 # bs) =
     (case Uint32 order [b0, b1, b2, b3] of
        Inl e \<Rightarrow> Inl e
      | Inr w \<Rightarrow> (case wordsFromBytes order bs of Inl e \<Rightarrow> Inl e | Inr ws \<Rightarrow> Inr (w # ws)))"
| "wordsFromBytes order bs = Inl IndexOutOfRange"

section \<open>Hash utils\<close>

text \<open>
  \<open>hash.Hash\<close> is an interface of Go's standard library with the methods \<open>Write\<close>,
  \<open>Sum\<close>, \<open>Reset\<close>, \<open>Size\<close> (and \<open>BlockSize\<close>, not used here). A value of it is an
  object with its own mutable state; the record holds the methods as functions on that
  state, and the state. \<open>Read\<close> is there when the object's type also has the method
  \<^verbatim>\<open>Read([]byte) (int, error)\<close>, which is what the type assertion \<open>h.(readerHash)\<close> tests.
  \<open>Read n s\<close> gives the bytes that \<open>Read\<close> stores from the start of a buffer of \<open>n\<close>
  bytes, and the state after; the package drops the count and the error it returns.
\<close>

record 's Hash =
  Write :: "byte list \<Rightarrow> 's \<Rightarrow> 's"
  Sum :: "byte list \<Rightarrow> 's \<Rightarrow> byte list"
  Reset :: "'s \<Rightarrow> 's"
  Size :: nat
  Read :: "(nat \<Rightarrow> 's \<Rightarrow> byte list \<times> 's) option"
  state :: 's

text \<open>
  \<^verbatim>\<open>type hasher func(dest []byte, data []byte)\<close>. The function returned by
  \<open>makeHasher\<close> shares the hash object's state across its calls, so a call takes the
  state and returns the new one with the new contents of \<open>dest\<close>. \<open>dest\<close> is given by the
  bytes of its array from its start up to its capacity: \<open>dest[:outputLen]\<close> is bounded by
  \<open>cap(dest)\<close>, not by \<open>len(dest)\<close>, and panics beyond it. \<open>data\<close> is absorbed before
  \<open>dest\<close> is stored to, so a \<open>data\<close> that views the same bytes as \<open>dest\<close> is read as it
  was.
\<close>

type_synonym 's hasher = "byte list \<Rightarrow> byte list \<Rightarrow> 's \<Rightarrow> panic + byte list \<times> 's"

text \<open>
  \<^verbatim>\<open>func(dest []byte, data []byte) { rh.Reset(); rh.Write(data); rh.Read(dest[:outputLen]) }\<close>
\<close>

definition hasher_closure ::
  "'s Hash \<Rightarrow> (nat \<Rightarrow> 's \<Rightarrow> byte list \<times> 's) \<Rightarrow> nat \<Rightarrow> 's hasher" where
  "hasher_closure rh rd outputLen dest data s =
     (let s1 = Reset rh s;
          s2 = Write rh data s1
      in if outputLen > length dest then Inl SliceBoundsOutOfRange
         else (let (out, s3) = rd outputLen s2;
                   written = take outputLen out
               in Inr (written @ drop (length written) dest, s3)))"

text \<open>
  \<^verbatim>\<open>func makeHasher(h hash.Hash) hasher {
      rh, ok := h.(readerHash)
      if !ok { panic("can't find Read method on hash") }
      outputLen := rh.Size()
      return func(dest []byte, data []byte) { ... }
  }\<close>
\<close>

definition makeHasher :: "'s Hash \<Rightarrow> panic + 's hasher" where
  "makeHasher h =
     (case Read h of
        None \<Rightarrow> Inl (PanicMsg ''can't find Read method on hash'')
      | Some rd \<Rightarrow> (let outputLen = Size h in Inr (hasher_closure h rd outputLen)))"

text \<open>
  \<open>golang.org/x/crypto/sha3\<close> is not part of the package. Its hash object is a sponge:
  \<open>Write\<close> absorbs input, \<open>Read\<close> squeezes the next bytes of the output, \<open>Sum\<close> appends
  the first 32 bytes of the output and leaves the state alone, \<open>Reset\<close> empties it. The
  permutation is not modelled: \<open>sponge inp k\<close>, a parameter, is byte \<open>k\<close> of the output
  after absorbing \<open>inp\<close>. The object is modelled for the call sequences the package
  makes: \<open>Write\<close> then \<open>Sum\<close> on a new object, and \<open>Reset\<close>, \<open>Write\<close>, \<open>Read\<close>.
\<close>

record sponge_state =
  absorbed :: "byte list"
  squeezed :: nat

definition NewLegacyKeccak256 :: "(byte list \<Rightarrow> nat \<Rightarrow> byte) \<Rightarrow> sponge_state Hash" where
  "NewLegacyKeccak256 sponge =
     \<lparr> Write = (\<lambda>p s. s\<lparr>absorbed := absorbed s @ p\<rparr>),
       Sum = (\<lambda>b s. b @ map (sponge (absorbed s)) [0..<32]),
       Reset = (\<lambda>s. \<lparr>absorbed = [], squeezed = 0\<rparr>),
       Size = 32,
       Read = Some (\<lambda>n s. (map (sponge (absorbed s)) [squeezed s..<squeezed s + n],
                              s\<lparr>squeezed := squeezed s + n\<rparr>)),
       state = \<lparr>absorbed = [], squeezed = 0\<rparr> \<rparr>"

text \<open>
  \<^verbatim>\<open>func Keccak256(b []byte) []byte { d := sha3.NewLegacyKeccak256(); d.Write(b); return d.Sum(nil) }\<close>
\<close>

definition Keccak256 :: "(byte list \<Rightarrow> nat \<Rightarrow> byte) \<Rightarrow> byte list \<Rightarrow> byte list" where
  "Keccak256 sponge b =
     (let d = NewLegacyKeccak256 sponge;
          s = Write d b (state d)
      in Sum d [] s)"

text \<open>
  \<^verbatim>\<open>func seedHash(block uint64, epochLength uint64) []byte {
      seed := make([]byte, 32)
      if block < epochLength { return seed }
      keccak256 := makeHasher(sha3.NewLegacyKeccak256())
      for i := 0; i < int(block/epochLength); i++ { keccak256(seed, seed) }
      return seed
  }\<close>
  The loop condition is evaluated at every iteration: \<open>block/epochLength\<close> panics when
  \<open>epochLength\<close> is 0, and the quotient is converted to \<open>int\<close> before it is compared with
  the \<open>int\<close> counter \<open>i\<close>. The counter stays below that \<open>int\<close>, so it never overflows.
\<close>

function seedHash_loop ::
  "'s hasher \<Rightarrow> arch \<Rightarrow> uint64 \<Rightarrow> uint64 \<Rightarrow> int \<Rightarrow> byte list \<Rightarrow> 's \<Rightarrow> panic + byte list" where
  "seedHash_loop keccak256 a block epochLength i seed s =
     (if epochLength = 0 then Inl DivideByZero
      else if i < toInt a (block div epochLength) then
        (case keccak256 seed seed s of
           Inl e \<Rightarrow> Inl e
         | Inr (seed', s') \<Rightarrow> seedHash_loop keccak256 a block epochLength (i + 1) seed' s')
      else Inr seed)"
  by pat_completeness auto
termination
  by (relation "measure (\<lambda>(keccak256, a, block, epochLength, i, seed, s).
        nat (toInt a (block div epochLength) - i))") auto

declare seedHash_loop.simps [simp del]

definition seedHash ::
  "(byte list \<Rightarrow> nat \<Rightarrow> byte) \<Rightarrow> arch \<Rightarrow> uint64 \<Rightarrow> uint64 \<Rightarrow> panic + byte list" where
  "seedHash sponge a block epochLength =
     (let seed = replicate 32 0 in
      if block < epochLength then Inr seed
      else (let h = NewLegacyKeccak256 sponge in
            case makeHasher h of
              Inl e \<Rightarrow> Inl e
            | Inr keccak256 \<Rightarrow> seedHash_loop keccak256 a block epochLength 0 seed (state h)))"

text \<open>
  A stand-in output stream, to run the model on concrete inputs. It is not Keccak, and
  no general statement below depends on it.
\<close>

definition toy_sponge :: "byte list \<Rightarrow> nat \<Rightarrow> byte" where
  "toy_sponge inp k = sum_list inp + of_nat (length inp) + of_nat k"

section \<open>Math utils\<close>

text \<open>\<^verbatim>\<open>func minUint32(a, b uint32) uint32 { if a > b { return b }; return a }\<close>\<close>

definition minUint32 :: "uint32 \<Rightarrow> uint32 \<Rightarrow> uint32" where
  "minUint32 a b = (if a > b then b else a)"

text \<open>\<^verbatim>\<open>func fnv1(u, v uint32) uint32 { return (u * FNV_PRIME) ^ v }\<close>\<close>

definition fnv1 :: "uint32 \<Rightarrow> uint32 \<Rightarrow> uint32" where
  "fnv1 u v = (u * FNV_PRIME) XOR v"

text \<open>\<^verbatim>\<open>func fnv1a(u, v uint32) uint32 { return (u ^ v) * FNV_PRIME }\<close>\<close>

definition fnv1a :: "uint32 \<Rightarrow> uint32 \<Rightarrow> uint32" where
  "fnv1a u v = (u XOR v) * FNV_PRIME"

text \<open>
  \<open>fnvHash\<close> writes through its first argument. A Go slice is a view of an array, and
  two slices may view the same elements, so the word arrays live in an explicit memory
  (address to word) and a \<open>[]uint32\<close> is its header: the address of its first element
  and its length. The capacity plays no part in \<open>fnvHash\<close> and is left out.
\<close>

type_synonym memory = "nat \<Rightarrow> uint32"

record uint32_slice =
  Data :: nat
  Len :: nat

text \<open>The elements a slice shows in a memory, and the memory holding given words from address 0.\<close>

definition elems :: "memory \<Rightarrow> uint32_slice \<Rightarrow> uint32 list" where
  "elems mem s = map (\<lambda>i. mem (Data s + i)) [0..<Len s]"

definition memory_of :: "uint32 list \<Rightarrow> memory" where
  "memory_of ws a = (if a < length ws then ws ! a else 0)"

text \<open>
  \<^verbatim>\<open>func fnvHash(mix []uint32, data []uint32) {
      for i := 0; i < len(mix); i++ { mix[i] = fnv1(mix[i], data[i]) }
  }\<close>
  \<open>mix[i]\<close> is in range by the loop condition; \<open>data[i]\<close> panics when \<open>i\<close> is not below
  \<open>len(data)\<close>, before anything is stored in that iteration. The right-hand side is
  read from the memory as it is at that iteration.
\<close>

function fnvHash_loop ::
  "nat \<Rightarrow> uint32_slice \<Rightarrow> uint32_slice \<Rightarrow> memory \<Rightarrow> panic + memory" where
  "fnvHash_loop i mix data mem =
     (if i < Len mix then
        (if i < Len data then
           fnvHash_loop (i + 1) mix data
             (mem(Data mix + i := fnv1 (mem (Data mix + i)) (mem (Data data + i))))
         else Inl IndexOutOfRange)
      else Inr mem)"
  by pat_completeness auto
termination
  by (relation "measure (\<lambda>(i, mix, data, mem). Len mix - i)") auto

declare fnvHash_loop.simps [simp del]

definition fnvHash :: "uint32_slice \<Rightarrow> uint32_slice \<Rightarrow> memory \<Rightarrow> panic + memory" where
  "fnvHash mix data mem = fnvHash_loop 0 mix data mem"

text \<open>What a slice shows after a call.\<close>

definition after_call :: "uint32_slice \<Rightarrow> panic + memory \<Rightarrow> panic + uint32 list" where
  "after_call s r = (case r of Inl e \<Rightarrow> Inl e | Inr mem \<Rightarrow> Inr (elems mem s))"


text \<open>
  \<^verbatim>\<open>func rotl32(a, b uint32) uint32 { return a<<(b&31) | a>>((32-b)&31) }\<close>
  \<^verbatim>\<open>func rotr32(a, b uint32) uint32 { return a<<((32-b)&31) | a>>(b&31) }\<close>

  In Go the shifts and \<open>&\<close> bind tighter than \<open>|\<close>. \<open>32 - b\<close> is a \<open>uint32\<close>
  subtraction and wraps for \<open>b > 32\<close>. Both shift counts are at most 31, so the shifts
  are the plain ones: \<open>push_bit\<close> drops the bits shifted out of the word, \<open>drop_bit\<close>
  fills with zeros.
\<close>

definition rotl32 :: "uint32 \<Rightarrow> uint32 \<Rightarrow> uint32" where
  "rotl32 a b = push_bit (unat (b AND 31)) a OR drop_bit (unat ((32 - b) AND 31)) a"

definition rotr32 :: "uint32 \<Rightarrow> uint32 \<Rightarrow> uint32" where
  "rotr32 a b = push_bit (unat ((32 - b) AND 31)) a OR drop_bit (unat (b AND 31)) a"

text \<open>
  \<open>math/bits\<close> is Go's standard library, not part of the package; its three functions
  used here are modelled from their documentation. \<open>Len32 x\<close> is the minimum number of
  bits required to represent \<open>x\<close> (0 for \<open>x = 0\<close>): the bits of \<open>x\<close> from the top, with
  the leading zeros dropped. \<open>LeadingZeros32 x\<close> is \<open>32 - Len32 x\<close>, as the library
  defines it, and \<open>OnesCount32 x\<close> is the number of one bits of \<open>x\<close>.
\<close>

definition Len32 :: "uint32 \<Rightarrow> nat" where
  "Len32 x = length (dropWhile Not (rev (map (bit x) [0..<32])))"

definition LeadingZeros32 :: "uint32 \<Rightarrow> nat" where
  "LeadingZeros32 x = 32 - Len32 x"

definition OnesCount32 :: "uint32 \<Rightarrow> nat" where
  "OnesCount32 x = length (filter (bit x) [0..<32])"

text \<open>\<^verbatim>\<open>func clz32(a uint32) uint32 { return uint32(bits.LeadingZeros32(a)) }\<close>\<close>

definition clz32 :: "uint32 \<Rightarrow> uint32" where
  "clz32 a = word_of_nat (LeadingZeros32 a)"

text \<open>\<^verbatim>\<open>func popcount32(a uint32) uint32 { return uint32(bits.OnesCount32(a)) }\<close>\<close>

definition popcount32 :: "uint32 \<Rightarrow> uint32" where
  "popcount32 a = word_of_nat (OnesCount32 a)"

text \<open>
  \<^verbatim>\<open>func mul_hi32(a, b uint32) uint32 { return uint32((uint64(a) * uint64(b)) >> 32) }\<close>
  Both operands are widened to 64 bits, multiplied there, shifted and truncated.
\<close>

definition mul_hi32 :: "uint32 \<Rightarrow> uint32 \<Rightarrow> uint32" where
  "mul_hi32 a b = ucast (drop_bit 32 ((ucast a :: uint64) * (ucast b :: uint64)))"

section \<open>kawpow utils\<close>

text \<open>
  \<open>randomMath\<close> is a \<open>switch\<close> on \<open>selector % 11\<close> whose eleven cases each return,
  followed by a trailing \<open>return 0\<close>. The switch is modelled on its own: it yields
  \<open>Some v\<close> when a case fires and returns \<open>v\<close>, and \<open>None\<close> when no case matches and
  control falls out of the switch. Go tries the cases in order, as the \<open>if\<close> chain does.
\<close>

definition randomMath_switch :: "uint32 \<Rightarrow> uint32 \<Rightarrow> uint32 \<Rightarrow> uint32 option" where
  "randomMath_switch a b selector =
     (let k = selector mod 11 in
      if k = 0 then Some (a + b)
      else if k = 1 then Some (a * b)
      else if k = 2 then Some (mul_hi32 a b)
      else if k = 3 then Some (minUint32 a b)
      else if k = 4 then Some (rotl32 a b)
      else if k = 5 then Some (rotr32 a b)
      else if k = 6 then Some (a AND b)
      else if k = 7 then Some (a OR b)
      else if k = 8 then Some (a XOR b)
      else if k = 9 then Some (clz32 a + clz32 b)
      else if k = 10 then Some (popcount32 a + popcount32 b)
      else None)"

definition randomMath :: "uint32 \<Rightarrow> uint32 \<Rightarrow> uint32 \<Rightarrow> uint32" where
  "randomMath a b selector =
     (case randomMath_switch a b selector of Some v \<Rightarrow> v | None \<Rightarrow> 0)"

text \<open>
  \<open>randomMerge\<close> first computes \<^verbatim>\<open>x := ((selector >> 16) % 31) + 1\<close>, then switches on
  \<open>selector % 4\<close>, again with a trailing \<open>return 0\<close>.
\<close>

definition randomMerge_x :: "uint32 \<Rightarrow> uint32" where
  "randomMerge_x selector = (drop_bit 16 selector mod 31) + 1"

definition randomMerge_switch :: "uint32 \<Rightarrow> uint32 \<Rightarrow> uint32 \<Rightarrow> uint32 option" where
  "randomMerge_switch a b selector =
     (let x = randomMerge_x selector; k = selector mod 4 in
      if k = 0 then Some ((a * 33) + b)
      else if k = 1 then Some ((a XOR b) * 33)
      else if k = 2 then Some (rotl32 a x XOR b)
      else if k = 3 then Some (rotr32 a x XOR b)
      else None)"

definition randomMerge :: "uint32 \<Rightarrow> uint32 \<Rightarrow> uint32 \<Rightarrow> uint32" where
  "randomMerge a b selector =
     (case randomMerge_switch a b selector of Some v \<Rightarrow> v | None \<Rightarrow> 0)"

text \<open>
  The cases of a switch that match a selector value, by position: the case constants
  are \<open>0, 1, \<dots>, n - 1\<close> in source order.
\<close>

definition matching_cases :: "nat \<Rightarrow> uint32 \<Rightarrow> nat list" where
  "matching_cases n k = filter (\<lambda>c. k = word_of_nat c) [0..<n]"

section \<open>The operators as the specification words them\<close>

text \<open>
  The specification gives the rotations with explicit \<open>mod 32\<close>, the high word of the
  product over the full product of the unsigned values, and all arithmetic as 32-bit
  wrap-around. These definitions follow those words, over the unsigned values of the
  operands, and are compared with the code's below.
\<close>

definition spec_rotl :: "uint32 \<Rightarrow> uint32 \<Rightarrow> uint32" where
  "spec_rotl a b = push_bit (unat b mod 32) a OR drop_bit ((32 - unat b mod 32) mod 32) a"

definition spec_rotr :: "uint32 \<Rightarrow> uint32 \<Rightarrow> uint32" where
  "spec_rotr a b = push_bit ((32 - unat b mod 32) mod 32) a OR drop_bit (unat b mod 32) a"

definition spec_add :: "uint32 \<Rightarrow> uint32 \<Rightarrow> uint32" where
  "spec_add a b = word_of_nat ((unat a + unat b) mod 2 ^ 32)"

definition spec_mul :: "uint32 \<Rightarrow> uint32 \<Rightarrow> uint32" where
  "spec_mul a b = word_of_nat ((unat a * unat b) mod 2 ^ 32)"

definition spec_highWordOfProduct :: "uint32 \<Rightarrow> uint32 \<Rightarrow> uint32" where
  "spec_highWordOfProduct a b = word_of_nat ((unat a * unat b) div 2 ^ 32)"

definition spec_minOf :: "uint32 \<Rightarrow> uint32 \<Rightarrow> uint32" where
  "spec_minOf a b = (if unat a \<le> unat b then a else b)"

text \<open>
  The two bit counts, on the unsigned value and without looking at bits: the number of
  leading zeros of a 32-bit value is 32 less the number of binary digits of the value
  (none for 0), found by halving; the number of set bits is the sum of the binary
  digits, found by halving too.
\<close>

fun bit_length :: "nat \<Rightarrow> nat" where
  "bit_length n = (if n = 0 then 0 else Suc (bit_length (n div 2)))"

fun set_bits :: "nat \<Rightarrow> nat" where
  "set_bits n = (if n = 0 then 0 else n mod 2 + set_bits (n div 2))"

declare bit_length.simps [simp del]
declare set_bits.simps [simp del]

definition spec_countLeadingZeros :: "uint32 \<Rightarrow> uint32" where
  "spec_countLeadingZeros a = word_of_nat (32 - bit_length (unat a))"

definition spec_countSetBits :: "uint32 \<Rightarrow> uint32" where
  "spec_countSetBits a = word_of_nat (set_bits (unat a))"

definition spec_randomMath :: "uint32 \<Rightarrow> uint32 \<Rightarrow> uint32 \<Rightarrow> uint32" where
  "spec_randomMath a b selector =
     [spec_add a b,
      spec_mul a b,
      spec_highWordOfProduct a b,
      spec_minOf a b,
      spec_rotl a b,
      spec_rotr a b,
      a AND b,
      a OR b,
      a XOR b,
      spec_add (spec_countLeadingZeros a) (spec_countLeadingZeros b),
      spec_add (spec_countSetBits a) (spec_countSetBits b)] ! (unat selector mod 11)"

definition spec_merge_x :: "uint32 \<Rightarrow> nat" where
  "spec_merge_x selector = ((unat selector div 2 ^ 16) mod 31) + 1"

definition spec_randomMerge :: "uint32 \<Rightarrow> uint32 \<Rightarrow> uint32 \<Rightarrow> uint32" where
  "spec_randomMerge a b selector =
     [spec_add (spec_mul a 33) b,
      spec_mul (a XOR b) 33,
      spec_rotl a (word_of_nat (spec_merge_x selector)) XOR b,
      spec_rotr a (word_of_nat (spec_merge_x selector)) XOR b] ! (unat selector mod 4)"

chapter \<open>Properties\<close>

section \<open>Rotations\<close>

text \<open>Arithmetic of the two shift counts, then the rotations bit by bit.\<close>

lemma neg_mod32:
  assumes "u \<le> c" "32 dvd c"
  shows "(c + 32 - u) mod 32 = (32 - u mod 32) mod (32::nat)"
proof -
  obtain d where c: "c = 32 * d" using assms(2) by (auto simp: dvd_def)
  have m: "u mod 32 \<le> 32" by simp
  have "int ((c + 32 - u) mod 32) = (int c + 32 - int u) mod 32"
    using assms(1) by (simp add: zmod_int)
  also have "\<dots> = (32 * (int d + 1) + (- int u)) mod 32"
    by (simp add: c algebra_simps)
  also have "\<dots> = (- int u) mod 32"
    by (simp only: mod_mult_self4)
  also have "\<dots> = (- (int u mod 32)) mod 32"
    by (simp add: mod_minus_eq)
  also have "\<dots> = (32 * 1 + (- (int u mod 32))) mod 32"
    by (simp only: mod_mult_self4)
  also have "\<dots> = int ((32 - u mod 32) mod 32)"
    using m by (simp add: zmod_int)
  finally show ?thesis by (simp only: of_nat_eq_iff)
qed

lemma neg_mod32_small:
  "u \<le> 32 \<Longrightarrow> (32 - u) mod 32 = (32 - u mod 32) mod (32::nat)"
  using neg_mod32 [of u 0] by (cases "u = 32") simp_all

lemma dvd_32_pow: "(32::nat) dvd 2 ^ 32"
proof -
  have "(2::nat) ^ 32 = 32 * 2 ^ 27" by simp
  then show ?thesis by (simp only: dvd_triv_left)
qed

lemma unat_le_pow: "unat (b :: uint32) \<le> 2 ^ 32"
  using unsigned_less [of b, where 'a = nat] by simp

lemma unat_32_minus_small: "unat (c :: uint32) \<le> 32 \<Longrightarrow> unat (32 - c) = 32 - unat c"
  by (simp add: unat_sub_if')

lemma unat_32_minus_wrap:
  "\<not> unat (c :: uint32) \<le> 32 \<Longrightarrow> unat (32 - c) = 2 ^ 32 + 32 - unat c"
  by (simp add: unat_sub_if')

lemma unat_and_31: "unat (b AND (31::uint32)) = unat b mod 32"
proof -
  have "b AND 31 = take_bit 5 b"
    by (simp add: take_bit_eq_mask mask_eq_exp_minus_1)
  moreover have "unat (take_bit 5 b) = take_bit 5 (unat b)"
    by (rule unsigned_take_bit_eq)
  ultimately show ?thesis by (simp add: take_bit_eq_mod)
qed

lemma unat_32_minus_and_31:
  "unat ((32 - b) AND (31::uint32)) = (32 - unat b mod 32) mod 32"
proof -
  have "unat (32 - b) mod 32 = (32 - unat b mod 32) mod 32"
  proof (cases "unat b \<le> 32")
    case True
    show ?thesis
      by (simp only: unat_32_minus_small [OF True] neg_mod32_small [OF True])
  next
    case False
    show ?thesis
      by (simp only: unat_32_minus_wrap [OF False] neg_mod32 [OF unat_le_pow dvd_32_pow])
  qed
  then show ?thesis by (simp only: unat_and_31)
qed

lemma rotl32_spec_rotl: "rotl32 a b = spec_rotl a b"
  by (simp only: rotl32_def spec_rotl_def unat_32_minus_and_31) (simp only: unat_and_31)

lemma rotr32_spec_rotr: "rotr32 a b = spec_rotr a b"
  by (simp only: rotr32_def spec_rotr_def unat_32_minus_and_31) (simp only: unat_and_31)

lemma high_bits_clear: "32 \<le> m \<Longrightarrow> \<not> bit (a :: uint32) m"
  using bit_imp_le_length [of a m] by auto

lemma spec_rotl_word_rotl: "spec_rotl a b = word_rotl (unat b) a"
proof (rule bit_word_eqI)
  fix n assume n: "n < LENGTH(32)"
  define k where "k = unat b mod 32"
  have k: "k < 32" by (simp add: k_def)
  have L: "bit (spec_rotl a b) n \<longleftrightarrow> (k \<le> n \<and> bit a (n - k)) \<or> bit a ((32 - k) mod 32 + n)"
    using n by (simp add: spec_rotl_def bit_simps k_def [symmetric])
  have R: "bit (word_rotl (unat b) a) n \<longleftrightarrow> bit a ((n + (32 - k)) mod 32)"
    using n by (simp add: bit_simps k_def [symmetric])
  show "bit (spec_rotl a b) n = bit (word_rotl (unat b) a) n"
  proof (cases "k = 0")
    case True
    then show ?thesis unfolding L R using n by simp
  next
    case False
    then have j: "(32 - k) mod 32 = 32 - k" using k by simp
    show ?thesis
    proof (cases "k \<le> n")
      case True
      then have "(n + (32 - k)) mod 32 = n - k" using n k False
        by (simp add: mod_if)
      then show ?thesis unfolding L R j using n True high_bits_clear [of "32 - k + n" a]
        by simp
    next
      case False
      then have "(n + (32 - k)) mod 32 = n + (32 - k)" using n k
        by simp
      then show ?thesis unfolding L R j using n False
        by (simp add: add.commute)
    qed
  qed
qed

lemma spec_rotr_word_rotr: "spec_rotr a b = word_rotr (unat b) a"
proof (rule bit_word_eqI)
  fix n assume n: "n < LENGTH(32)"
  define k where "k = unat b mod 32"
  have k: "k < 32" by (simp add: k_def)
  have L: "bit (spec_rotr a b) n \<longleftrightarrow> ((32 - k) mod 32 \<le> n \<and> bit a (n - (32 - k) mod 32)) \<or> bit a (k + n)"
    using n by (simp add: spec_rotr_def bit_simps k_def [symmetric])
  have "(n + unat b) mod 32 = (n + k) mod 32"
    by (simp add: k_def mod_add_right_eq)
  then have R: "bit (word_rotr (unat b) a) n \<longleftrightarrow> bit a ((n + k) mod 32)"
    using n by (simp add: bit_simps)
  show "bit (spec_rotr a b) n = bit (word_rotr (unat b) a) n"
  proof (cases "k = 0")
    case True
    then show ?thesis unfolding L R using n by simp
  next
    case False
    then have j: "(32 - k) mod 32 = 32 - k" using k by simp
    show ?thesis
    proof (cases "32 - k \<le> n")
      case True
      then have "(n + k) mod 32 = n - (32 - k)" using n k False
        by (simp add: mod_if)
      then show ?thesis unfolding L R j using n True high_bits_clear [of "k + n" a]
        by simp
    next
      case False
      then have "(n + k) mod 32 = n + k" using n k
        by simp
      then show ?thesis unfolding L R j using n False
        by (simp add: add.commute)
    qed
  qed
qed

lemma rotr32_rotl32: "rotr32 (rotl32 a k) k = a"
  by (simp only: rotl32_spec_rotl rotr32_spec_rotr spec_rotl_word_rotl spec_rotr_word_rotr
        word_rot_lr)

text \<open>
  Claim C5. For every 32-bit \<open>a\<close> and \<open>b\<close>, the code's \<open>rotl32\<close> and \<open>rotr32\<close>, written
  with \<open>b & 31\<close> and \<open>(32 - b) & 31\<close> on wrapping 32-bit values, compute the
  specification's formulas \<open>(a << (b mod 32)) | (a >> ((32 - (b mod 32)) mod 32))\<close> and
  \<open>(a << ((32 - (b mod 32)) mod 32)) | (a >> (b mod 32))\<close>, for all inputs, \<open>b = 0\<close>
  and \<open>b \<ge> 32\<close> included.
\<close>

theorem rotl32_rotr32_formulas:
  "rotl32 a b = push_bit (unat b mod 32) a OR drop_bit ((32 - unat b mod 32) mod 32) a \<and>
   rotr32 a b = push_bit ((32 - unat b mod 32) mod 32) a OR drop_bit (unat b mod 32) a"
  by (simp only: rotl32_spec_rotl rotr32_spec_rotr spec_rotl_def spec_rotr_def)

text \<open>
  Claim C6. Rotating right undoes rotating left by the same amount:
  \<open>rotr(rotl(a, k), k) = a\<close> for every 32-bit \<open>a\<close> and every \<open>k\<close> in \<open>0..31\<close>; the
  equation holds for every 32-bit \<open>k\<close>, so no bound on \<open>k\<close> is assumed. Also
  \<open>rotl(1, 1) = 2\<close> and \<open>rotr(2, 1) = 1\<close>.
\<close>

theorem rotr32_inverts_rotl32:
  "rotr32 (rotl32 a k) k = a \<and> rotl32 1 1 = 2 \<and> rotr32 2 1 = 1"
proof -
  have "rotl32 1 1 = 2" by (simp add: rotl32_def)
  moreover have "rotr32 2 1 = 1" by (simp add: rotr32_def)
  ultimately show ?thesis by (simp only: rotr32_rotl32)
qed

section \<open>Selector-driven operators\<close>

text \<open>The code's operators against the specification's wording of them.\<close>

text \<open>The bit counts on sample values.\<close>

lemma bit_count_samples:
  "LeadingZeros32 0 = 32 \<and> LeadingZeros32 1 = 31 \<and> LeadingZeros32 0x00010000 = 15 \<and>
   LeadingZeros32 0xFFFFFFFF = 0 \<and> OnesCount32 0 = 0 \<and> OnesCount32 0xF0F0 = 8 \<and>
   OnesCount32 0xFFFFFFFF = 32"
  by code_simp

lemma unat_prod_less: "unat (a::uint32) * unat (b::uint32) < 2 ^ 64"
proof -
  have "unat a < 2 ^ 32" "unat b < 2 ^ 32"
    using unsigned_less [of a, where 'a = nat] unsigned_less [of b, where 'a = nat] by simp_all
  then have "unat a * unat b < 2 ^ 32 * 2 ^ 32"
    by (intro mult_strict_mono) simp_all
  also have "(2::nat) ^ 32 * 2 ^ 32 = 2 ^ 64" by (simp only: power_add [symmetric]) simp
  finally show ?thesis .
qed

lemma unat_ucast_32_64: "unat (ucast (a::uint32) :: uint64) = unat a"
proof -
  have "unat a < 2 ^ 64"
    using unsigned_less [of a, where 'a = nat] by simp
  then show ?thesis
    by (simp add: unsigned_ucast_eq take_bit_nat_eq_self)
qed

lemma unat_wide_prod:
  "unat ((ucast a :: uint64) * (ucast (b::uint32) :: uint64)) = unat (a::uint32) * unat b"
proof -
  have "unat (ucast a :: uint64) * unat (ucast b :: uint64) < 2 ^ LENGTH(64)"
    using unat_prod_less [of a b] by (simp only: unat_ucast_32_64) simp
  then show ?thesis
    by (simp only: unat_mult_lem [THEN iffD1] unat_ucast_32_64)
qed

lemma mul_hi32_spec: "mul_hi32 a b = spec_highWordOfProduct a b"
proof -
  have "unat (drop_bit 32 ((ucast a :: uint64) * (ucast b :: uint64))) = (unat a * unat b) div 2 ^ 32"
    by (simp only: unat_drop_bit_eq) (simp only: unat_wide_prod drop_bit_eq_div)
  moreover have "(ucast w :: uint32) = word_of_nat (unat w)" for w :: uint64
    by simp
  ultimately show ?thesis
    by (simp only: mul_hi32_def spec_highWordOfProduct_def)
qed

lemma word_of_nat_mod_32: "(word_of_nat (n mod 2 ^ 32) :: uint32) = word_of_nat n"
  by (simp add: word_of_nat_eq_iff take_bit_eq_mod)

lemma add_spec: "a + b = spec_add a b"
  by (simp only: spec_add_def word_of_nat_mod_32) simp

lemma mul_spec: "a * b = spec_mul a b"
  by (simp only: spec_mul_def word_of_nat_mod_32) simp

lemma minUint32_spec: "minUint32 a b = spec_minOf a b"
  by (simp add: minUint32_def spec_minOf_def word_less_nat_alt not_less)

lemma sel_eq_iff:
  "c < 2 ^ 32 \<Longrightarrow> (selector mod (word_of_nat m) = (word_of_nat c :: uint32)) \<longleftrightarrow> unat selector mod (m mod 2 ^ 32) = c"
  by (simp add: word_unat_eq_iff unat_mod unat_of_nat)

lemma sel11: "(selector mod 11 = (word_of_nat c :: uint32)) \<longleftrightarrow> unat selector mod 11 = c" if "c < 11"
  using sel_eq_iff [of c selector 11] that by simp

lemma below_11_cases:
  "j < 11 \<Longrightarrow> j = 0 \<or> j = 1 \<or> j = 2 \<or> j = 3 \<or> j = 4 \<or> j = 5 \<or> j = 6 \<or> j = 7 \<or>
     j = 8 \<or> j = 9 \<or> j = (10::nat)"
  by arith

lemma below_4_cases:
  "j < 4 \<Longrightarrow> j = 0 \<or> j = 1 \<or> j = 2 \<or> j = (3::nat)"
  by arith

lemma bit_length_0: "bit_length 0 = 0"
  by (simp add: bit_length.simps)

lemma bit_length_pos: "n \<noteq> 0 \<Longrightarrow> bit_length n = Suc (bit_length (n div 2))"
  by (subst bit_length.simps) simp

lemma bit_length_eq_0_iff: "bit_length n = 0 \<longleftrightarrow> n = 0"
  by (cases "n = 0") (simp_all add: bit_length_0 bit_length_pos)

lemma set_bits_0: "set_bits 0 = 0"
  by (simp add: set_bits.simps)

lemma set_bits_step: "set_bits n = n mod 2 + set_bits (n div 2)"
  by (cases "n = 0") (simp_all add: set_bits_0, subst set_bits.simps, simp)

lemma bits_Suc: "map (bit n) [0..<Suc k] = odd n # map (bit (n div 2)) [0..<k]" for n :: nat
proof -
  have "[0..<Suc k] = 0 # map Suc [0..<k]"
    by (simp add: upt_conv_Cons map_Suc_upt del: upt_Suc)
  then show ?thesis
    by (simp add: bit_Suc bit_0 comp_def del: upt_Suc)
qed

lemma dropWhile_snoc:
  "dropWhile P (ys @ [z]) = (if dropWhile P ys = [] then dropWhile P [z] else dropWhile P ys @ [z])"
  by (induction ys) simp_all

lemma Len_nat:
  "n < 2 ^ k \<Longrightarrow> length (dropWhile Not (rev (map (bit n) [0..<k]))) = bit_length n" for n :: nat
proof (induction k arbitrary: n)
  case 0
  then show ?case by (simp add: bit_length_0)
next
  case (Suc k)
  then have h: "n div 2 < 2 ^ k" by auto
  let ?ys = "rev (map (bit (n div 2)) [0..<k])"
  have IH: "length (dropWhile Not ?ys) = bit_length (n div 2)" using Suc.IH [OF h] .
  have r: "rev (map (bit n) [0..<Suc k]) = ?ys @ [odd n]"
    by (simp only: bits_Suc rev.simps)
  show ?case
  proof (cases "n div 2 = 0")
    case True
    then have e: "dropWhile Not ?ys = []" using IH by (simp add: bit_length_0)
    from True have "n = 0 \<or> n = 1" by auto
    then show ?thesis
    proof
      assume "n = 0"
      then show ?thesis unfolding r dropWhile_snoc e by (simp add: bit_length_0)
    next
      assume "n = 1"
      then show ?thesis unfolding r dropWhile_snoc e
        by (simp add: bit_length_pos bit_length_0)
    qed
  next
    case False
    then have "bit_length (n div 2) \<noteq> 0" by (simp only: bit_length_eq_0_iff not_False_eq_True)
    then have "length (dropWhile Not ?ys) \<noteq> 0" by (simp only: IH not_False_eq_True)
    then have ne: "dropWhile Not ?ys \<noteq> []" by (simp only: length_0_conv not_False_eq_True)
    from False have "n \<noteq> 0" by auto
    then have b: "bit_length n = Suc (bit_length (n div 2))" by (rule bit_length_pos)
    have "dropWhile Not (?ys @ [odd n]) = dropWhile Not ?ys @ [odd n]"
      using ne by (simp only: dropWhile_snoc if_False)
    then have "length (dropWhile Not (?ys @ [odd n])) = Suc (length (dropWhile Not ?ys))"
      by (simp only: length_append_singleton)
    then show ?thesis by (simp only: r IH b)
  qed
qed

lemma count_nat:
  "length (filter (bit n) [0..<k]) + set_bits (n div 2 ^ k) = set_bits n" for n :: nat
proof (induction k arbitrary: n)
  case 0
  then show ?case by simp
next
  case (Suc k)
  have "[0..<Suc k] = 0 # map Suc [0..<k]"
    by (simp add: upt_conv_Cons map_Suc_upt del: upt_Suc)
  then have "length (filter (bit n) [0..<Suc k])
      = (if odd n then 1 else 0) + length (filter (bit (n div 2)) [0..<k])"
    by (simp add: filter_map comp_def bit_Suc bit_0 del: upt_Suc)
  moreover have "n div 2 ^ Suc k = (n div 2) div 2 ^ k"
    by (simp add: div_mult2_eq)
  moreover have "(if odd n then 1 else 0) = n mod 2" by (simp add: odd_iff_mod_2_eq_one)
  ultimately show ?case
    using Suc.IH [of "n div 2"] set_bits_step [of n] by simp
qed

lemma bits_word: "map (bit x) [0..<32] = map (bit (unat x)) [0..<32]" for x :: uint32
  by (simp add: bit_unsigned_iff del: upt_Suc)

lemma Len32_bit_length: "Len32 x = bit_length (unat x)"
proof -
  have "unat x < 2 ^ 32" using unsigned_less [of x, where 'a = nat] by simp
  then show ?thesis
    unfolding Len32_def bits_word by (rule Len_nat)
qed

lemma OnesCount32_set_bits: "OnesCount32 x = set_bits (unat x)"
proof -
  have lt: "unat x < 2 ^ 32" using unsigned_less [of x, where 'a = nat] by simp
  have "filter (bit x) [0..<32] = filter (bit (unat x)) [0..<32]"
    by (rule filter_cong) (simp_all add: bit_unsigned_iff)
  moreover have "length (filter (bit (unat x)) [0..<32]) + set_bits (unat x div 2 ^ 32) = set_bits (unat x)"
    by (rule count_nat)
  moreover have "unat x div 2 ^ 32 = 0" using lt by (rule div_less)
  ultimately show ?thesis by (simp add: OnesCount32_def set_bits_0)
qed

lemma clz32_spec: "clz32 a = spec_countLeadingZeros a"
  by (simp add: clz32_def LeadingZeros32_def spec_countLeadingZeros_def Len32_bit_length)

lemma popcount32_spec: "popcount32 a = spec_countSetBits a"
  by (simp add: popcount32_def spec_countSetBits_def OnesCount32_set_bits)

lemma randomMath_switch_spec:
  "randomMath_switch a b selector = Some (spec_randomMath a b selector)"
proof -
  define j where "j = unat selector mod 11"
  have "j < 11" by (simp add: j_def)
  then consider "j = 0" | "j = 1" | "j = 2" | "j = 3" | "j = 4" | "j = 5" | "j = 6"
    | "j = 7" | "j = 8" | "j = 9" | "j = 10"
    using below_11_cases [of j] by blast
  then show ?thesis
  proof cases
    case 1
    then have "selector mod 11 = 0" using sel11 [of 0 selector] by (simp add: j_def)
    then show ?thesis using 1
      by (simp add: randomMath_switch_def spec_randomMath_def j_def add_spec)
  next
    case 2
    then have "selector mod 11 = 1" using sel11 [of 1 selector] by (simp add: j_def)
    then show ?thesis using 2
      by (simp add: randomMath_switch_def spec_randomMath_def j_def mul_spec)
  next
    case 3
    then have "selector mod 11 = 2" using sel11 [of 2 selector] by (simp add: j_def)
    then show ?thesis using 3
      by (simp add: randomMath_switch_def spec_randomMath_def j_def mul_hi32_spec)
  next
    case 4
    then have "selector mod 11 = 3" using sel11 [of 3 selector] by (simp add: j_def)
    then show ?thesis using 4
      by (simp add: randomMath_switch_def spec_randomMath_def j_def minUint32_spec)
  next
    case 5
    then have "selector mod 11 = 4" using sel11 [of 4 selector] by (simp add: j_def)
    then show ?thesis using 5
      by (simp add: randomMath_switch_def spec_randomMath_def j_def rotl32_spec_rotl)
  next
    case 6
    then have "selector mod 11 = 5" using sel11 [of 5 selector] by (simp add: j_def)
    then show ?thesis using 6
      by (simp add: randomMath_switch_def spec_randomMath_def j_def rotr32_spec_rotr)
  next
    case 7
    then have "selector mod 11 = 6" using sel11 [of 6 selector] by (simp add: j_def)
    then show ?thesis using 7
      by (simp add: randomMath_switch_def spec_randomMath_def j_def )
  next
    case 8
    then have "selector mod 11 = 7" using sel11 [of 7 selector] by (simp add: j_def)
    then show ?thesis using 8
      by (simp add: randomMath_switch_def spec_randomMath_def j_def )
  next
    case 9
    then have "selector mod 11 = 8" using sel11 [of 8 selector] by (simp add: j_def)
    then show ?thesis using 9
      by (simp add: randomMath_switch_def spec_randomMath_def j_def )
  next
    case 10
    then have "selector mod 11 = 9" using sel11 [of 9 selector] by (simp add: j_def)
    then show ?thesis using 10
      by (simp add: randomMath_switch_def spec_randomMath_def j_def add_spec clz32_spec)
  next
    case 11
    then have "selector mod 11 = 10" using sel11 [of 10 selector] by (simp add: j_def)
    then show ?thesis using 11
      by (simp add: randomMath_switch_def spec_randomMath_def j_def add_spec popcount32_spec)
  qed
qed

lemma randomMath_spec: "randomMath a b selector = spec_randomMath a b selector"
  by (simp add: randomMath_def randomMath_switch_spec)

lemma sel4: "(selector mod 4 = (word_of_nat c :: uint32)) \<longleftrightarrow> unat selector mod 4 = c" if "c < 4"
  using sel_eq_iff [of c selector 4] that by simp

lemma unat_randomMerge_x: "unat (randomMerge_x selector) = spec_merge_x selector"
proof -
  have "unat (drop_bit 16 selector mod 31) = (unat selector div 2 ^ 16) mod 31"
    by (simp add: unat_mod unat_div unat_drop_bit_eq drop_bit_eq_div)
  moreover have "(unat selector div 2 ^ 16) mod 31 + 1 < 2 ^ LENGTH(32)"
  proof -
    have "(unat selector div 2 ^ 16) mod 31 < 31" by simp
    then show ?thesis by simp
  qed
  ultimately show ?thesis
    unfolding randomMerge_x_def spec_merge_x_def
    by (metis unat_add_lem unsigned_1)
qed

lemma randomMerge_x_spec: "randomMerge_x selector = word_of_nat (spec_merge_x selector)"
  by (simp add: unat_randomMerge_x [symmetric])

lemma randomMerge_switch_spec:
  "randomMerge_switch a b selector = Some (spec_randomMerge a b selector)"
proof -
  define j where "j = unat selector mod 4"
  have "j < 4" by (simp add: j_def)
  then consider "j = 0" | "j = 1" | "j = 2" | "j = 3"
    using below_4_cases [of j] by blast
  then show ?thesis
  proof cases
    case 1
    then have "selector mod 4 = 0" using sel4 [of 0 selector] by (simp add: j_def)
    then show ?thesis using 1
      by (simp add: randomMerge_switch_def spec_randomMerge_def j_def add_spec [symmetric] mul_spec [symmetric])
  next
    case 2
    then have "selector mod 4 = 1" using sel4 [of 1 selector] by (simp add: j_def)
    then show ?thesis using 2
      by (simp add: randomMerge_switch_def spec_randomMerge_def j_def mul_spec [symmetric])
  next
    case 3
    then have "selector mod 4 = 2" using sel4 [of 2 selector] by (simp add: j_def)
    then show ?thesis using 3
      by (simp add: randomMerge_switch_def spec_randomMerge_def j_def rotl32_spec_rotl randomMerge_x_spec)
  next
    case 4
    then have "selector mod 4 = 3" using sel4 [of 3 selector] by (simp add: j_def)
    then show ?thesis using 4
      by (simp add: randomMerge_switch_def spec_randomMerge_def j_def rotr32_spec_rotr randomMerge_x_spec)
  qed
qed

lemma randomMerge_spec: "randomMerge a b selector = spec_randomMerge a b selector"
  by (simp add: randomMerge_def randomMerge_switch_spec)

lemma spec_merge_x_range: "1 \<le> spec_merge_x selector \<and> spec_merge_x selector \<le> 31"
proof -
  have "(unat selector div 2 ^ 16) mod 31 < 31" by simp
  then show ?thesis unfolding spec_merge_x_def by linarith
qed

lemma filter_eq_upt: "j < n \<Longrightarrow> filter (\<lambda>c. j = c) [0..<n] = [j]"
proof (induction n)
  case 0
  then show ?case by simp
next
  case (Suc n)
  show ?case
  proof (cases "j = n")
    case True
    have "filter (\<lambda>c. n = c) [0..<n] = []"
      by (rule filter_False) simp
    then show ?thesis using True by simp
  next
    case False
    then have "j < n" using Suc.prems by simp
    then show ?thesis using Suc.IH False by simp
  qed
qed

lemma matching_cases_11: "matching_cases 11 (selector mod 11) = [unat selector mod 11]"
proof -
  have "filter (\<lambda>c. selector mod 11 = word_of_nat c) [0..<11]
      = filter (\<lambda>c. unat selector mod 11 = c) [0..<11]"
    by (rule filter_cong) (simp_all add: sel11)
  then show ?thesis
    by (simp add: matching_cases_def filter_eq_upt)
qed

lemma matching_cases_4: "matching_cases 4 (selector mod 4) = [unat selector mod 4]"
proof -
  have "filter (\<lambda>c. selector mod 4 = word_of_nat c) [0..<4]
      = filter (\<lambda>c. unat selector mod 4 = c) [0..<4]"
    by (rule filter_cong) (simp_all add: sel4)
  then show ?thesis
    by (simp add: matching_cases_def filter_eq_upt)
qed

text \<open>
  Claim C2. For every \<open>a\<close>, \<open>b\<close> and \<open>selector\<close>, \<open>randomMath(a, b, selector)\<close> is the
  entry number \<open>selector mod 11\<close> of the eleven-entry table \<open>a + b\<close>, \<open>a * b\<close>,
  \<open>highWordOfProduct(a, b)\<close>, \<open>minOf(a, b)\<close>, \<open>rotl(a, b)\<close>, \<open>rotr(a, b)\<close>, \<open>a AND b\<close>,
  \<open>a OR b\<close>, \<open>a XOR b\<close>, \<open>countLeadingZeros(a) + countLeadingZeros(b)\<close>,
  \<open>countSetBits(a) + countSetBits(b)\<close>, the sums and the product taken modulo \<open>2^32\<close>
  and every entry stated on the unsigned values of the operands; and
  \<open>randomMath(5, 3, 0) = 8\<close>, \<open>randomMath(5, 3, 1) = 15\<close>,
  \<open>randomMath(0xFFFFFFFF, 1, 0) = 0\<close>. Sample values for the other nine selectors
  follow, on \<open>a = 0x80000005\<close> and \<open>b = 3\<close>, and two more for the bit counts.
\<close>

theorem randomMath_table:
  "randomMath a b selector =
     [spec_add a b,
      spec_mul a b,
      spec_highWordOfProduct a b,
      spec_minOf a b,
      spec_rotl a b,
      spec_rotr a b,
      a AND b,
      a OR b,
      a XOR b,
      spec_add (spec_countLeadingZeros a) (spec_countLeadingZeros b),
      spec_add (spec_countSetBits a) (spec_countSetBits b)] ! (unat selector mod 11) \<and>
   randomMath 5 3 0 = 8 \<and> randomMath 5 3 1 = 15 \<and> randomMath 0xFFFFFFFF 1 0 = 0 \<and>
   randomMath 0x80000005 3 2 = 1 \<and>
   randomMath 0x80000005 3 3 = 3 \<and>
   randomMath 0x80000005 3 4 = 0x0000002C \<and>
   randomMath 0x80000005 3 5 = 0xB0000000 \<and>
   randomMath 0x80000005 3 6 = 1 \<and>
   randomMath 0x80000005 3 7 = 0x80000007 \<and>
   randomMath 0x80000005 3 8 = 0x80000006 \<and>
   randomMath 0x80000005 3 9 = 30 \<and>
   randomMath 0x80000005 3 10 = 5 \<and>
   randomMath 1 0x00010000 9 = 46 \<and>
   randomMath 0xF0F0 0xFFFFFFFF 10 = 40"
proof -
  have t: "randomMath a b selector =
     [spec_add a b,
      spec_mul a b,
      spec_highWordOfProduct a b,
      spec_minOf a b,
      spec_rotl a b,
      spec_rotr a b,
      a AND b,
      a OR b,
      a XOR b,
      spec_add (spec_countLeadingZeros a) (spec_countLeadingZeros b),
      spec_add (spec_countSetBits a) (spec_countSetBits b)] ! (unat selector mod 11)"
    by (simp only: randomMath_spec spec_randomMath_def)
  have s1: "randomMath 5 3 0 = 8 \<and> randomMath 5 3 1 = 15 \<and> randomMath 0xFFFFFFFF 1 0 = 0"
    by code_simp
  have s2: "randomMath 0x80000005 3 2 = 1 \<and>
   randomMath 0x80000005 3 3 = 3 \<and>
   randomMath 0x80000005 3 4 = 0x0000002C \<and>
   randomMath 0x80000005 3 5 = 0xB0000000 \<and>
   randomMath 0x80000005 3 6 = 1 \<and>
   randomMath 0x80000005 3 7 = 0x80000007 \<and>
   randomMath 0x80000005 3 8 = 0x80000006"
    by code_simp
  have s3: "randomMath 0x80000005 3 9 = 30 \<and>
   randomMath 0x80000005 3 10 = 5 \<and>
   randomMath 1 0x00010000 9 = 46 \<and>
   randomMath 0xF0F0 0xFFFFFFFF 10 = 40"
    by code_simp
  show ?thesis using t s1 s2 s3 by blast
qed

text \<open>
  Claim C3. For every \<open>a\<close>, \<open>b\<close> and \<open>selector\<close>, the rotate amount of \<open>randomMerge\<close> is
  \<open>x = ((selector >> 16) mod 31) + 1\<close>, which lies in \<open>1..31\<close> (never 0, never 32), and
  \<open>randomMerge(a, b, selector)\<close> is the entry number \<open>selector mod 4\<close> of the table
  \<open>(a * 33) + b\<close>, \<open>(a XOR b) * 33\<close>, \<open>rotl(a, x) XOR b\<close>, \<open>rotr(a, x) XOR b\<close>, with
  32-bit wrap-around arithmetic.
\<close>

theorem randomMerge_table:
  "unat (randomMerge_x selector) = ((unat selector div 2 ^ 16) mod 31) + 1 \<and>
   1 \<le> unat (randomMerge_x selector) \<and> unat (randomMerge_x selector) \<le> 31 \<and>
   randomMerge_x selector \<noteq> 0 \<and> randomMerge_x selector \<noteq> 32 \<and>
   randomMerge a b selector =
     [spec_add (spec_mul a 33) b,
      spec_mul (a XOR b) 33,
      spec_rotl a (randomMerge_x selector) XOR b,
      spec_rotr a (randomMerge_x selector) XOR b] ! (unat selector mod 4)"
proof -
  have x: "unat (randomMerge_x selector) = ((unat selector div 2 ^ 16) mod 31) + 1"
    by (simp only: unat_randomMerge_x spec_merge_x_def)
  have r: "1 \<le> unat (randomMerge_x selector) \<and> unat (randomMerge_x selector) \<le> 31"
    using spec_merge_x_range [of selector] by (simp only: unat_randomMerge_x)
  have n0: "randomMerge_x selector \<noteq> 0" using r by (auto simp: word_unat_eq_iff)
  have n32: "randomMerge_x selector \<noteq> 32" using r by (auto simp: word_unat_eq_iff)
  have m: "randomMerge a b selector =
     [spec_add (spec_mul a 33) b,
      spec_mul (a XOR b) 33,
      spec_rotl a (randomMerge_x selector) XOR b,
      spec_rotr a (randomMerge_x selector) XOR b] ! (unat selector mod 4)"
    by (simp only: randomMerge_spec spec_randomMerge_def randomMerge_x_spec [symmetric])
  show ?thesis using x r n0 n32 m by blast
qed

text \<open>
  Claim C9. The trailing \<open>return 0\<close> of \<open>randomMath\<close> and of \<open>randomMerge\<close> is never
  reached: for every selector the switch of either function returns a value, because
  \<open>selector mod 11\<close> is below 11 and \<open>selector mod 4\<close> is below 4, and exactly one case
  constant matches it.
\<close>

theorem switch_fallthrough_unreachable:
  "randomMath_switch a b selector \<noteq> None \<and>
   randomMerge_switch a b selector \<noteq> None \<and>
   unat (selector mod 11) < 11 \<and> unat (selector mod 4) < 4 \<and>
   length (matching_cases 11 (selector mod 11)) = 1 \<and>
   length (matching_cases 4 (selector mod 4)) = 1"
  by (simp add: randomMath_switch_spec randomMerge_switch_spec matching_cases_11
        matching_cases_4 unat_mod)

section \<open>The FNV mixer\<close>




lemma length_elems: "length (elems mem s) = Len s"
  by (simp add: elems_def)





text \<open>
  The loop does not panic when \<open>data\<close> is long enough, whatever the slices share, and
  it stores only to the elements \<open>i, i + 1, \<dots>\<close> of \<open>mix\<close>.
\<close>

lemma fnvHash_loop_writes:
  assumes "Len mix \<le> Len data"
  shows "\<not> isl (fnvHash_loop i mix data mem) \<and>
     (\<forall>a. \<not> (Data mix + i \<le> a \<and> a < Data mix + Len mix) \<longrightarrow>
        projr (fnvHash_loop i mix data mem) a = mem a)"
  using assms
proof (induction i mix data mem rule: fnvHash_loop.induct)
  case (1 i mix data mem)
  show ?case
  proof (cases "i < Len mix")
    case False
    then show ?thesis by (simp add: fnvHash_loop.simps [of i])
  next
    case True
    then have d: "i < Len data" using "1.prems" by simp
    let ?mem = "mem(Data mix + i := fnv1 (mem (Data mix + i)) (mem (Data data + i)))"
    have step: "fnvHash_loop i mix data mem = fnvHash_loop (i + 1) mix data ?mem"
      using True d by (simp add: fnvHash_loop.simps [of i])
    have IH: "\<not> isl (fnvHash_loop (i + 1) mix data ?mem) \<and>
       (\<forall>a. \<not> (Data mix + (i + 1) \<le> a \<and> a < Data mix + Len mix) \<longrightarrow>
          projr (fnvHash_loop (i + 1) mix data ?mem) a = ?mem a)"
      using "1.IH" [OF True d "1.prems"] .
    have "projr (fnvHash_loop (i + 1) mix data ?mem) a = mem a"
      if "\<not> (Data mix + i \<le> a \<and> a < Data mix + Len mix)" for a
    proof -
      have "\<not> (Data mix + (i + 1) \<le> a \<and> a < Data mix + Len mix)" using that by auto
      then have "projr (fnvHash_loop (i + 1) mix data ?mem) a = ?mem a" using IH by blast
      moreover have "a \<noteq> Data mix + i" using that True by auto
      ultimately show ?thesis by simp
    qed
    then show ?thesis using IH by (simp only: step) blast
  qed
qed

text \<open>
  What the loop leaves in \<open>mix\<close> depends only on the elements of \<open>mix\<close> and on the
  elements of \<open>data\<close> at indices below \<open>len(mix)\<close>: two memories that agree on those give
  results that agree on them.
\<close>

lemma fnvHash_loop_reads:
  assumes "Len mix \<le> Len data"
    and "\<forall>k<Len mix. mem2 (Data mix + k) = mem (Data mix + k) \<and>
                       mem2 (Data data + k) = mem (Data data + k)"
  shows "\<forall>k<Len mix. projr (fnvHash_loop i mix data mem2) (Data mix + k)
                        = projr (fnvHash_loop i mix data mem) (Data mix + k) \<and>
                     projr (fnvHash_loop i mix data mem2) (Data data + k)
                        = projr (fnvHash_loop i mix data mem) (Data data + k)"
  using assms(2)
proof (induction "Len mix - i" arbitrary: i mem mem2)
  case 0
  then have "\<not> i < Len mix" by simp
  then show ?case using "0.prems" by (simp add: fnvHash_loop.simps [of i])
next
  case (Suc n)
  then have lt: "i < Len mix" by simp
  then have d: "i < Len data" using assms(1) by simp
  let ?v = "fnv1 (mem (Data mix + i)) (mem (Data data + i))"
  let ?v2 = "fnv1 (mem2 (Data mix + i)) (mem2 (Data data + i))"
  have v: "?v2 = ?v" using Suc.prems lt by simp
  have step: "fnvHash_loop i mix data mem = fnvHash_loop (i + 1) mix data (mem(Data mix + i := ?v))"
    using lt d by (simp add: fnvHash_loop.simps [of i])
  have step2: "fnvHash_loop i mix data mem2 = fnvHash_loop (i + 1) mix data (mem2(Data mix + i := ?v))"
    using lt d by (simp add: fnvHash_loop.simps [of i] v)
  have n: "n = Len mix - (i + 1)" using Suc.hyps(2) by simp
  have agree: "\<forall>k<Len mix. (mem2(Data mix + i := ?v)) (Data mix + k) = (mem(Data mix + i := ?v)) (Data mix + k) \<and>
                       (mem2(Data mix + i := ?v)) (Data data + k) = (mem(Data mix + i := ?v)) (Data data + k)"
    using Suc.prems by simp
  show ?case
    unfolding step step2 by (rule Suc.hyps(1) [OF n agree])
qed

lemma elems_unchanged:
  assumes "\<forall>i<Len mix. \<forall>j<Len data. Data mix + i \<noteq> Data data + j"
    and "\<forall>a. \<not> (Data mix \<le> a \<and> a < Data mix + Len mix) \<longrightarrow> mem' a = mem a"
  shows "elems mem' data = elems mem data"
proof -
  have "mem' (Data data + j) = mem (Data data + j)" if "j < Len data" for j
  proof (cases "Data mix \<le> Data data + j \<and> Data data + j < Data mix + Len mix")
    case True
    define i where "i = Data data + j - Data mix"
    have "i < Len mix" "Data mix + i = Data data + j" using True by (auto simp: i_def)
    then show ?thesis using assms(1) that by blast
  next
    case False
    then show ?thesis using assms(2) by blast
  qed
  then show ?thesis by (simp add: elems_def)
qed

text \<open>
  Claim C10, amended. The claim as stated fails when \<open>mix\<close> and \<open>data\<close> share storage.
  For \<open>mix\<close> and \<open>data\<close> with \<open>len(data) \<ge> len(mix)\<close>, \<open>fnvHash\<close> does not panic and:
  it stores to nothing but the \<open>len(mix)\<close> elements of \<open>mix\<close>, so every other word of
  memory is as before and \<open>mix\<close> has as many elements as before; when \<open>mix\<close> and \<open>data\<close>
  share no element, \<open>data\<close> shows the same elements after the call as before; and it
  reads nothing but the elements of \<open>mix\<close> and the elements of \<open>data\<close> at indices below
  \<open>len(mix)\<close>: in a memory \<open>mem2\<close> that agrees with \<open>mem\<close> on those, whatever it holds
  elsewhere, the call leaves the same words in them.
\<close>

theorem fnvHash_frame:
  assumes "Len mix \<le> Len data"
  shows "\<not> isl (fnvHash mix data mem) \<and>
     (\<forall>a. \<not> (Data mix \<le> a \<and> a < Data mix + Len mix) \<longrightarrow>
        projr (fnvHash mix data mem) a = mem a) \<and>
     length (elems (projr (fnvHash mix data mem)) mix) = length (elems mem mix) \<and>
     ((\<forall>i<Len mix. \<forall>j<Len data. Data mix + i \<noteq> Data data + j) \<longrightarrow>
        after_call data (fnvHash mix data mem) = Inr (elems mem data)) \<and>
     ((\<forall>k<Len mix. mem2 (Data mix + k) = mem (Data mix + k) \<and>
                    mem2 (Data data + k) = mem (Data data + k)) \<longrightarrow>
        after_call mix (fnvHash mix data mem2) = after_call mix (fnvHash mix data mem))"
proof -
  have w: "\<not> isl (fnvHash mix data mem) \<and>
     (\<forall>a. \<not> (Data mix \<le> a \<and> a < Data mix + Len mix) \<longrightarrow>
        projr (fnvHash mix data mem) a = mem a)"
    using fnvHash_loop_writes [OF assms, of 0 mem] by (simp add: fnvHash_def)
  then have r: "fnvHash mix data mem = Inr (projr (fnvHash mix data mem))"
    by (cases "fnvHash mix data mem") simp_all
  have w2: "\<not> isl (fnvHash mix data mem2)"
    using fnvHash_loop_writes [OF assms, of 0 mem2] by (simp add: fnvHash_def)
  then have r2: "fnvHash mix data mem2 = Inr (projr (fnvHash mix data mem2))"
    by (cases "fnvHash mix data mem2") simp_all
  have u: "after_call data (fnvHash mix data mem) = Inr (elems mem data)"
    if "\<forall>i<Len mix. \<forall>j<Len data. Data mix + i \<noteq> Data data + j"
  proof -
    have "elems (projr (fnvHash mix data mem)) data = elems mem data"
      using elems_unchanged [OF that] w by blast
    then show ?thesis by (subst r) (simp add: after_call_def)
  qed
  have f: "after_call mix (fnvHash mix data mem2) = after_call mix (fnvHash mix data mem)"
    if "\<forall>k<Len mix. mem2 (Data mix + k) = mem (Data mix + k) \<and>
                      mem2 (Data data + k) = mem (Data data + k)"
  proof -
    have "\<forall>k<Len mix. projr (fnvHash mix data mem2) (Data mix + k)
                        = projr (fnvHash mix data mem) (Data mix + k)"
      using fnvHash_loop_reads [OF assms that, of 0] by (simp add: fnvHash_def)
    then have "elems (projr (fnvHash mix data mem2)) mix = elems (projr (fnvHash mix data mem)) mix"
      by (simp add: elems_def)
    then show ?thesis by (subst r, subst r2) (simp add: after_call_def)
  qed
  show ?thesis using w u f by (simp add: length_elems)
qed

text \<open>
  \<open>mix\<close> at addresses 0 and 1, \<open>data\<close> at addresses 2 to 4: \<open>data\<close> is as before, and
  another word in \<open>data[2]\<close> leaves the same \<open>mix\<close>.
\<close>

theorem fnvHash_frame_witness:
  "after_call \<lparr>Data = 2, Len = 3\<rparr>
     (fnvHash \<lparr>Data = 0, Len = 2\<rparr> \<lparr>Data = 2, Len = 3\<rparr> (memory_of [1, 2, 3, 4, 5]))
   = Inr [3, 4, 5] \<and>
   after_call \<lparr>Data = 0, Len = 2\<rparr>
     (fnvHash \<lparr>Data = 0, Len = 2\<rparr> \<lparr>Data = 2, Len = 3\<rparr> (memory_of [1, 2, 3, 4, 9]))
   = after_call \<lparr>Data = 0, Len = 2\<rparr>
     (fnvHash \<lparr>Data = 0, Len = 2\<rparr> \<lparr>Data = 2, Len = 3\<rparr> (memory_of [1, 2, 3, 4, 5]))"
proof -
  have u: "[0..<3] = [0, Suc 0, 2]" by (simp add: upt_rec)
  have two: "(k < 2) = (k = 0 \<or> k = Suc 0)" for k :: nat by auto
  show ?thesis
    using fnvHash_frame [of "\<lparr>Data = 0, Len = 2\<rparr>" "\<lparr>Data = 2, Len = 3\<rparr>"
        "memory_of [1, 2, 3, 4, 5]" "memory_of [1, 2, 3, 4, 9]"]
    by (simp add: elems_def memory_of_def u two)
qed

text \<open>
  Claim C10 as stated, refuted. With one slice holding \<open>[1]\<close> passed as both arguments,
  \<open>data\<close> shows \<open>fnv1(1, 1) = 0x01000192\<close> after the call.
\<close>

theorem fnvHash_alias_counterexample:
  "elems (memory_of [1]) \<lparr>Data = 0, Len = 1\<rparr> = [1] \<and>
   after_call \<lparr>Data = 0, Len = 1\<rparr>
     (fnvHash \<lparr>Data = 0, Len = 1\<rparr> \<lparr>Data = 0, Len = 1\<rparr> (memory_of [1]))
   = Inr [0x01000192]"
  by (simp add: after_call_def fnvHash_def fnvHash_loop.simps elems_def memory_of_def upt_rec
        fnv1_def FNV_PRIME_def)

section \<open>Words to bytes\<close>

lemma isLittleEndian_iff: "isLittleEndian host \<longleftrightarrow> host = LittleEndian"
  by (cases host) (simp_all add: isLittleEndian_def word_bytes_def)

lemma length_word_bytes: "length (word_bytes order v) = 4"
  by (cases order) (simp_all add: word_bytes_def)

lemma four_bytes_or:
  "(ucast (ucast v :: byte) :: uint32) OR push_bit 8 (ucast (ucast (drop_bit 8 v) :: byte))
      OR push_bit 16 (ucast (ucast (drop_bit 16 v) :: byte))
      OR push_bit 24 (ucast (ucast (drop_bit 24 v) :: byte)) = v" (is "?w = v")
proof (rule bit_word_eqI)
  fix n assume n: "n < LENGTH(32)"
  consider "n < 8" | "8 \<le> n" "n < 16" | "16 \<le> n" "n < 24" | "24 \<le> n" "n < 32"
    using n by fastforce
  then show "bit ?w n = bit v n"
  proof cases
    case 1
    then show ?thesis by (simp add: bit_simps)
  next
    case 2
    then have "n - 8 < 8" "\<not> n < 8" by simp_all
    with 2 show ?thesis by (simp add: bit_simps)
  next
    case 3
    then have "n - 16 < 8" "\<not> n < 8" "\<not> n - 8 < 8" by simp_all
    with 3 show ?thesis by (simp add: bit_simps)
  next
    case 4
    then have "n - 24 < 8" "\<not> n < 8" "\<not> n - 8 < 8" "\<not> n - 16 < 8" by simp_all
    with 4 show ?thesis by (simp add: bit_simps)
  qed
qed

lemma Uint32_word_bytes: "Uint32 order (word_bytes order v) = Inr v"
  using four_bytes_or [of v]
  by (cases order) (simp_all add: Uint32_def word_bytes_def ac_simps)

lemma putAll_fill:
  "length pre = i * 4 \<Longrightarrow>
   putAll order i vs (pre @ replicate (length vs * 4) 0)
     = Inr (pre @ concat (map (word_bytes order) vs))"
proof (induction vs arbitrary: i pre)
  case Nil
  then show ?case by simp
next
  case (Cons v vs)
  have r: "replicate (length (v # vs) * 4) (0::byte) = replicate 4 0 @ replicate (length vs * 4) 0"
    by (simp add: replicate_add [symmetric])
  have p: "PutUint32 order (replicate 4 0 @ replicate (length vs * 4) 0) v
      = Inr (word_bytes order v @ replicate (length vs * 4) 0)"
    by (simp add: PutUint32_def)
  have "length (pre @ word_bytes order v) = (i + 1) * 4"
    using Cons.prems by (simp add: length_word_bytes)
  from Cons.IH [OF this]
  have "putAll order (i + 1) vs (pre @ word_bytes order v @ replicate (length vs * 4) 0)
      = Inr (pre @ word_bytes order v @ concat (map (word_bytes order) vs))"
    by simp
  then show ?case
    using Cons.prems by (simp only: r putAll.simps) (simp add: p)
qed

lemma uint32Array2ByteArray_concat:
  "uint32Array2ByteArray host c = Inr (concat (map (word_bytes host) c))"
  using putAll_fill [of "[]" 0 host c]
  by (cases host) (simp_all add: uint32Array2ByteArray_def isLittleEndian_iff)

lemma length_concat_word_bytes: "length (concat (map (word_bytes order) c)) = 4 * length c"
  by (induction c) (simp_all add: length_word_bytes)

lemma wordsFromBytes_concat:
  "wordsFromBytes order (concat (map (word_bytes order) c)) = Inr c"
proof (induction c)
  case Nil
  then show ?case by simp
next
  case (Cons v c)
  obtain b0 b1 b2 b3 where b: "word_bytes order v = [b0, b1, b2, b3]"
    by (cases order) (simp_all add: word_bytes_def)
  have "Uint32 order [b0, b1, b2, b3] = Inr v"
    using Uint32_word_bytes [of order v] by (simp only: b)
  then show ?case using Cons.IH by (simp add: b)
qed

text \<open>
  Claim C8. For every word sequence, the empty one included, \<open>uint32Array2ByteArray\<close>
  returns without a panic a buffer of exactly \<open>4 * len(words)\<close> bytes that holds each
  word in the host's byte order, and reading the buffer back as 32-bit words in the
  same byte order gives the original sequence.
\<close>

theorem uint32Array2ByteArray_roundtrip:
  "uint32Array2ByteArray host c = Inr (concat (map (word_bytes host) c)) \<and>
   length (concat (map (word_bytes host) c)) = 4 * length c \<and>
   wordsFromBytes host (concat (map (word_bytes host) c)) = Inr c \<and>
   uint32Array2ByteArray host [] = Inr []"
  by (simp add: uint32Array2ByteArray_concat length_concat_word_bytes wordsFromBytes_concat)

section \<open>The reusable digest and the seed chain\<close>

lemma sint_small:
  fixes w :: "'a::len word"
  assumes "uint w < 2 ^ (LENGTH('a) - 1)"
  shows "sint w = uint w"
proof -
  have "- (2 ^ (LENGTH('a) - 1)) \<le> uint w"
    by (rule order_trans [of _ 0]) simp_all
  then have "signed_take_bit (LENGTH('a) - Suc 0) (uint w) = uint w"
    using assms by (simp add: signed_take_bit_int_eq_self)
  then show ?thesis by (simp only: sint_uint)
qed

lemma uint_less_of_unat:
  fixes w :: "'a::len word"
  assumes "unat w < 2 ^ n"
  shows "uint w < 2 ^ n"
proof -
  have "int (unat w) < int (2 ^ n)" using assms by (simp only: of_nat_less_iff)
  then show ?thesis by simp
qed

lemma uint_ucast_64_32:
  assumes "unat (x :: uint64) < 2 ^ 31"
  shows "uint (ucast x :: 32 word) = uint x"
proof -
  have "uint x < 2 ^ 31"
    using assms by (rule uint_less_of_unat)
  then have "uint x < 2 ^ 32" by simp
  then show ?thesis
    by (simp add: unsigned_ucast_eq take_bit_int_eq_self)
qed

lemma toInt_small:
  assumes "unat x < 2 ^ (intBits a - 1)"
  shows "toInt a x = int (unat x)"
proof (cases a)
  case Int32
  then have x: "unat x < 2 ^ 31" using assms by (simp add: intBits_def)
  then have "uint (ucast x :: 32 word) = uint x" by (rule uint_ucast_64_32)
  moreover have "uint x < 2 ^ 31" using x by (rule uint_less_of_unat)
  ultimately have "sint (ucast x :: 32 word) = uint x"
    using sint_small [of "ucast x :: 32 word"] by simp
  then show ?thesis using Int32 by (simp add: toInt_def)
next
  case Int64
  then have "unat x < 2 ^ 63" using assms by (simp add: intBits_def)
  then have "uint x < 2 ^ 63" by (rule uint_less_of_unat)
  then have "sint x = uint x" using sint_small [of x] by simp
  then show ?thesis using Int64 by (simp add: toInt_def)
qed


lemma makeHasher_Keccak:
  "makeHasher (NewLegacyKeccak256 sponge)
     = Inr (hasher_closure (NewLegacyKeccak256 sponge)
         (\<lambda>n s. (map (sponge (absorbed s)) [squeezed s..<squeezed s + n],
                  s\<lparr>squeezed := squeezed s + n\<rparr>)) 32)"
  by (simp add: makeHasher_def NewLegacyKeccak256_def)

lemma length_Keccak256: "length (Keccak256 sponge b) = 32"
  by (simp add: Keccak256_def NewLegacyKeccak256_def)

lemma Keccak_hasher_call:
  assumes "makeHasher (NewLegacyKeccak256 sponge) = Inr keccak256" and "32 \<le> length dest"
  shows "keccak256 dest data s
     = Inr (Keccak256 sponge data @ drop 32 dest, \<lparr>absorbed = data, squeezed = 32\<rparr>)"
proof -
  have "keccak256 = hasher_closure (NewLegacyKeccak256 sponge)
         (\<lambda>n s. (map (sponge (absorbed s)) [squeezed s..<squeezed s + n],
                  s\<lparr>squeezed := squeezed s + n\<rparr>)) 32"
    using assms(1) by (simp add: makeHasher_Keccak)
  then show ?thesis using assms(2)
    by (simp add: hasher_closure_def Keccak256_def NewLegacyKeccak256_def)
qed

lemma seedHash_loop_chain:
  assumes "epochLength \<noteq> 0"
    and "makeHasher (NewLegacyKeccak256 sponge) = Inr keccak256"
    and "length seed = 32"
    and "i \<le> toInt a (block div epochLength)"
    and "k = nat (toInt a (block div epochLength) - i)"
  shows "seedHash_loop keccak256 a block epochLength i seed s
     = Inr ((Keccak256 sponge ^^ k) seed)"
  using assms(3-5)
proof (induction k arbitrary: i seed s)
  case 0
  then have "\<not> i < toInt a (block div epochLength)" by simp
  then show ?case using assms(1)
    by (simp add: seedHash_loop.simps [of _ _ _ _ i])
next
  case (Suc k)
  then have lt: "i < toInt a (block div epochLength)" by simp
  have call: "keccak256 seed seed s = Inr (Keccak256 sponge seed, \<lparr>absorbed = seed, squeezed = 32\<rparr>)"
    using Keccak_hasher_call [OF assms(2), of seed seed s] Suc.prems(1) by simp
  have "seedHash_loop keccak256 a block epochLength (i + 1) (Keccak256 sponge seed)
          \<lparr>absorbed = seed, squeezed = 32\<rparr>
      = Inr ((Keccak256 sponge ^^ k) (Keccak256 sponge seed))"
    using Suc.prems lt by (intro Suc.IH) (simp_all add: length_Keccak256)
  then show ?case using assms(1) lt call
    by (simp add: seedHash_loop.simps [of _ _ _ _ i] funpow_swap1)
qed

lemma seedHash_below_epoch:
  "block < epochLength \<Longrightarrow> seedHash sponge a block epochLength = Inr (replicate 32 0)"
  by (simp add: seedHash_def)

lemma seedHash_chain_general:
  assumes "epochLength \<noteq> 0" and "unat (block div epochLength) < 2 ^ (intBits a - 1)"
  shows "seedHash sponge a block epochLength
     = Inr ((Keccak256 sponge ^^ (unat block div unat epochLength)) (replicate 32 0))"
proof (cases "block < epochLength")
  case True
  then have "unat block div unat epochLength = 0"
    by (simp add: word_less_nat_alt)
  then show ?thesis using True by (simp add: seedHash_below_epoch)
next
  case False
  obtain keccak256 where mk: "makeHasher (NewLegacyKeccak256 sponge) = Inr keccak256"
    by (simp add: makeHasher_Keccak)
  have n: "toInt a (block div epochLength) = int (unat block div unat epochLength)"
    using toInt_small [OF assms(2)] by (simp add: unat_div)
  have "seedHash_loop keccak256 a block epochLength 0 (replicate 32 0)
          (state (NewLegacyKeccak256 sponge))
      = Inr ((Keccak256 sponge ^^ (unat block div unat epochLength)) (replicate 32 0))"
    by (rule seedHash_loop_chain [OF assms(1) mk]) (simp_all add: n)
  then show ?thesis using False mk by (simp add: seedHash_def)
qed

text \<open>
  Claim C1, amended. The claim as stated fails for \<open>epochLength = 0\<close>, where the division
  panics. For every \<open>blockNumber\<close> \<open>b\<close> and every \<open>epochLength\<close> \<open>L > 0\<close> whose quotient
  \<open>floor(b / L)\<close> fits Go's \<open>int\<close> (is below \<open>2^31\<close> or \<open>2^63\<close>, by the platform),
  \<open>seedHash(b, L)\<close> returns the result of applying Keccak-256 exactly \<open>floor(b / L)\<close>
  times to 32 zero bytes; for \<open>b < L\<close> that is the 32 zero bytes themselves.
\<close>

theorem seedHash_chain:
  assumes "epochLength \<noteq> 0" and "unat (block div epochLength) < 2 ^ (intBits a - 1)"
  shows "seedHash sponge a block epochLength
       = Inr ((Keccak256 sponge ^^ (unat block div unat epochLength)) (replicate 32 0)) \<and>
     (block < epochLength \<longrightarrow> seedHash sponge a block epochLength = Inr (replicate 32 0))"
  using seedHash_chain_general [OF assms] seedHash_below_epoch by blast

text \<open>Two epochs in, and the block before the first epoch ends.\<close>

theorem seedHash_chain_witness:
  "seedHash toy_sponge Int64 60000 30000
     = Inr (Keccak256 toy_sponge (Keccak256 toy_sponge (replicate 32 0))) \<and>
   seedHash toy_sponge Int64 29999 30000 = Inr (replicate 32 0)"
proof -
  have "(Keccak256 toy_sponge ^^ 2) (replicate 32 0)
      = Keccak256 toy_sponge (Keccak256 toy_sponge (replicate 32 0))"
    by (simp add: numeral_2_eq_2)
  then show ?thesis
    using seedHash_chain [of 30000 60000 Int64 toy_sponge] seedHash_chain [of 30000 29999 Int64 toy_sponge]
    by (simp add: intBits_def)
qed

text \<open>
  Claim C1 as stated, refuted. With \<open>blockNumber = 0\<close> and \<open>epochLength = 0\<close> the test
  \<open>block < epochLength\<close> fails and the loop condition divides by zero: the call panics
  instead of returning a seed.
\<close>

theorem seedHash_zero_epoch_counterexample: "seedHash toy_sponge Int64 0 0 = Inl DivideByZero"
  by (simp add: seedHash_def makeHasher_Keccak seedHash_loop.simps)


lemma makeHasher_panics_iff: "isl (makeHasher h) \<longleftrightarrow> Read h = None"
  by (cases "Read h") (simp_all add: makeHasher_def)

lemma makeHasher_panic_message:
  "makeHasher h = Inl e \<Longrightarrow> e = PanicMsg ''can't find Read method on hash''"
  by (cases "Read h") (simp_all add: makeHasher_def)

lemma makeHasher_closure:
  "makeHasher h = Inr hash \<Longrightarrow> Read h = Some rd \<Longrightarrow> hash = hasher_closure h rd (Size h)"
  by (simp add: makeHasher_def)

lemma hasher_closure_short:
  "length dest < outputLen \<Longrightarrow> hasher_closure h rd outputLen dest data s = Inl SliceBoundsOutOfRange"
  by (simp add: hasher_closure_def)

lemma hasher_closure_ok:
  assumes "outputLen \<le> length dest"
    and "length (fst (rd outputLen (Write h data (Reset h s)))) = outputLen"
  shows "hasher_closure h rd outputLen dest data s
     = Inr (fst (rd outputLen (Write h data (Reset h s))) @ drop outputLen dest,
            snd (rd outputLen (Write h data (Reset h s))))"
  using assms by (simp add: hasher_closure_def Let_def split_beta)

lemma hasher_closure_any:
  assumes "outputLen \<le> length dest"
  shows "hasher_closure h rd outputLen dest data s
     = Inr (take outputLen (fst (rd outputLen (Write h data (Reset h s))))
              @ drop (length (take outputLen (fst (rd outputLen (Write h data (Reset h s)))))) dest,
            snd (rd outputLen (Write h data (Reset h s))))"
  using assms by (simp add: hasher_closure_def Let_def split_beta)

text \<open>
  Claim C7, amended. The claim as stated fails for a \<open>dest\<close> shorter than the digest,
  where the call panics. \<open>makeHasher\<close> panics, with the message
  \<open>can't find Read method on hash\<close>, exactly when the hash passed has no \<open>Read\<close> method.
  When it returns a function, a call of it with a \<open>dest\<close> of capacity below
  \<open>outputLength\<close> (the algorithm's \<open>Size\<close>) panics on the slice bounds; every call with
  a \<open>dest\<close> of capacity at least \<open>outputLength\<close> succeeds: it resets the state, absorbs
  \<open>data\<close>, and what \<open>Read\<close> stores into a buffer of \<open>outputLength\<close> bytes lands at the
  start of \<open>dest\<close>, \<open>dest\<close> keeps its length and its bytes from \<open>outputLength\<close> on, and
  the state is the one \<open>Read\<close> leaves; when \<open>Read\<close> fills the buffer, exactly
  \<open>outputLength\<close> bytes are stored.
\<close>

theorem makeHasher_contract:
  "(isl (makeHasher h) \<longleftrightarrow> Read h = None) \<and>
   (\<forall>e. makeHasher h = Inl e \<longrightarrow> e = PanicMsg ''can't find Read method on hash'') \<and>
   (\<forall>hash rd dest data s. makeHasher h = Inr hash \<and> Read h = Some rd \<longrightarrow>
      (length dest < Size h \<longrightarrow> hash dest data s = Inl SliceBoundsOutOfRange) \<and>
      (Size h \<le> length dest \<longrightarrow>
         hash dest data s
           = Inr (take (Size h) (fst (rd (Size h) (Write h data (Reset h s))))
                    @ drop (length (take (Size h) (fst (rd (Size h) (Write h data (Reset h s)))))) dest,
                  snd (rd (Size h) (Write h data (Reset h s)))) \<and>
         length (fst (projr (hash dest data s))) = length dest \<and>
         drop (Size h) (fst (projr (hash dest data s))) = drop (Size h) dest) \<and>
      (Size h \<le> length dest \<and>
       length (fst (rd (Size h) (Write h data (Reset h s)))) = Size h \<longrightarrow>
         hash dest data s
           = Inr (fst (rd (Size h) (Write h data (Reset h s))) @ drop (Size h) dest,
                  snd (rd (Size h) (Write h data (Reset h s))))))"
proof (intro conjI allI impI)
  show "isl (makeHasher h) \<longleftrightarrow> Read h = None" by (rule makeHasher_panics_iff)
next
  fix e assume "makeHasher h = Inl e"
  then show "e = PanicMsg ''can't find Read method on hash''" by (rule makeHasher_panic_message)
next
  fix hash rd data s and dest :: "byte list"
  assume a: "makeHasher h = Inr hash \<and> Read h = Some rd" and b: "length dest < Size h"
  from a have "hash = hasher_closure h rd (Size h)" by (simp add: makeHasher_closure)
  then show "hash dest data s = Inl SliceBoundsOutOfRange"
    using b by (simp add: hasher_closure_short)
next
  fix hash rd data s and dest :: "byte list"
  assume a: "makeHasher h = Inr hash \<and> Read h = Some rd" and b: "Size h \<le> length dest"
  from a have "hash = hasher_closure h rd (Size h)" by (simp add: makeHasher_closure)
  then show "hash dest data s
           = Inr (take (Size h) (fst (rd (Size h) (Write h data (Reset h s))))
                    @ drop (length (take (Size h) (fst (rd (Size h) (Write h data (Reset h s)))))) dest,
                  snd (rd (Size h) (Write h data (Reset h s))))"
    using b by (simp add: hasher_closure_any)
next
  fix hash rd data s and dest :: "byte list"
  assume a: "makeHasher h = Inr hash \<and> Read h = Some rd" and b: "Size h \<le> length dest"
  from a have "hash = hasher_closure h rd (Size h)" by (simp add: makeHasher_closure)
  then show "length (fst (projr (hash dest data s))) = length dest"
    using b by (simp add: hasher_closure_any)
next
  fix hash rd data s and dest :: "byte list"
  assume a: "makeHasher h = Inr hash \<and> Read h = Some rd" and b: "Size h \<le> length dest"
  from a have "hash = hasher_closure h rd (Size h)" by (simp add: makeHasher_closure)
  then show "drop (Size h) (fst (projr (hash dest data s))) = drop (Size h) dest"
    using b by (simp add: hasher_closure_any)
next
  fix hash rd data s and dest :: "byte list"
  assume a: "makeHasher h = Inr hash \<and> Read h = Some rd"
    and b: "Size h \<le> length dest \<and> length (fst (rd (Size h) (Write h data (Reset h s)))) = Size h"
  from a have "hash = hasher_closure h rd (Size h)" by (simp add: makeHasher_closure)
  then show "hash dest data s
           = Inr (fst (rd (Size h) (Write h data (Reset h s))) @ drop (Size h) dest,
                  snd (rd (Size h) (Write h data (Reset h s))))"
    using b by (simp add: hasher_closure_ok)
qed

lemma Read_Keccak:
  "Read (NewLegacyKeccak256 sponge)
     = Some (\<lambda>n s. (map (sponge (absorbed s)) [squeezed s..<squeezed s + n],
                      s\<lparr>squeezed := squeezed s + n\<rparr>))"
  by (simp add: NewLegacyKeccak256_def)

text \<open>The sponge object, a 32-byte \<open>dest\<close> and three bytes of \<open>data\<close>.\<close>

theorem makeHasher_contract_witness:
  "\<not> isl (makeHasher (NewLegacyKeccak256 toy_sponge)) \<and>
   projr (makeHasher (NewLegacyKeccak256 toy_sponge)) (replicate 32 0) [1, 2, 3]
       (state (NewLegacyKeccak256 toy_sponge))
     = Inr (Keccak256 toy_sponge [1, 2, 3], \<lparr>absorbed = [1, 2, 3], squeezed = 32\<rparr>)"
proof -
  let ?h = "NewLegacyKeccak256 toy_sponge"
  let ?rd = "\<lambda>n s. (map (toy_sponge (absorbed s)) [squeezed s..<squeezed s + n],
                      s\<lparr>squeezed := squeezed s + n\<rparr>)"
  have mk: "makeHasher ?h = Inr (projr (makeHasher ?h))"
    by (simp add: makeHasher_Keccak)
  have rd: "Read ?h = Some ?rd" by (rule Read_Keccak)
  have sz: "Size ?h = 32" by (simp add: NewLegacyKeccak256_def)
  have fill: "length (fst (?rd (Size ?h) (Write ?h [1, 2, 3] (Reset ?h (state ?h))))) = Size ?h"
    by (simp add: sz)
  have le: "Size ?h \<le> length (replicate 32 (0::byte))" by (simp add: sz)
  note call = makeHasher_contract [of ?h, THEN conjunct2, THEN conjunct2, rule_format,
      of "projr (makeHasher ?h)" ?rd _ "[1, 2, 3]" "state ?h", OF conjI [OF mk rd],
      THEN conjunct2, THEN conjunct2, rule_format, OF conjI [OF le fill]]
  have "projr (makeHasher ?h) (replicate 32 0) [1, 2, 3] (state ?h)
      = Inr (fst (?rd (Size ?h) (Write ?h [1, 2, 3] (Reset ?h (state ?h)))) @ drop (Size ?h) (replicate 32 0),
             snd (?rd (Size ?h) (Write ?h [1, 2, 3] (Reset ?h (state ?h)))))"
    by (rule call)
  moreover have "\<not> isl (makeHasher ?h)" using makeHasher_contract [of ?h] rd by simp
  ultimately show ?thesis
    by (simp add: Keccak256_def NewLegacyKeccak256_def)
qed

text \<open>
  Claim C7 as stated, refuted. Construction on the sponge object succeeds, and a call of
  the returned function with an empty \<open>dest\<close> panics at \<open>dest[:outputLen]\<close>: a per-call
  error path.
\<close>

theorem hasher_short_dest_counterexample:
  "\<not> isl (makeHasher (NewLegacyKeccak256 toy_sponge)) \<and>
   projr (makeHasher (NewLegacyKeccak256 toy_sponge)) [] [1, 2, 3]
       (state (NewLegacyKeccak256 toy_sponge))
     = Inl SliceBoundsOutOfRange"
  by (simp add: makeHasher_Keccak hasher_closure_def)

end
